theory Spec2Isabelle
  imports Complex_Main "HOL-Library.Sublist" "HOL-Library.Finite_Map"
begin

section \<open>Result records and result sets (results.go)\<close>

text \<open>
  Modelled from the spec: the declaration of \<open>ValueResult\<close> is not among the source
  files; the spec gives it as \<open>{valid: bool, message: string}\<close>, and the source builds
  it positionally (\<open>ValueResult{false, "..."}\<close>) and reads \<open>.Valid\<close> and \<open>.Message\<close>.
\<close>

datatype ValueResult = ValueResult (Valid: bool) (Message: string)

text \<open>
  Modelled from the spec: \<open>ValidVR\<close>, the shared "valid, no message" record.
\<close>

definition ValidVR :: ValueResult where
  "ValidVR = ValueResult True []"

text \<open>
  \<open>type Results struct { Fields map[string][]ValueResult; Valid bool }\<close>.
  The Go map is a partial function from paths to slices. The aggregate flag is named
  \<open>ValidR\<close>, since \<open>Valid\<close> is the field of a single record.
\<close>

record Results =
  Fields :: "string \<rightharpoonup> ValueResult list"
  ValidR :: bool

definition NewResults :: Results where
  "NewResults = \<lparr>Fields = Map.empty, ValidR = True\<rparr>"

text \<open>
  \<open>func (r *Results) record(path, result)\<close>, with the receiver returned updated.
  \<open>r.Fields[path] == nil\<close> holds for an absent path (the zero slice); a present path
  goes through \<open>append\<close>.
\<close>

definition record' :: "Results \<Rightarrow> string \<Rightarrow> ValueResult \<Rightarrow> Results" where
  "record' r path result =
     (let r1 = (case Fields r path of
                  None \<Rightarrow> r\<lparr>Fields := (Fields r)(path \<mapsto> [result])\<rparr>
                | Some xs \<Rightarrow> r\<lparr>Fields := (Fields r)(path \<mapsto> xs @ [result])\<rparr>)
      in if \<not> Valid result then r1\<lparr>ValidR := False\<rparr> else r1)"

text \<open>The result sets the program can build: \<open>NewResults()\<close> followed by \<open>record\<close> calls.\<close>

inductive reachable :: "Results \<Rightarrow> bool" where
  init: "reachable NewResults"
| step: "reachable r \<Longrightarrow> reachable (record' r path result)"

text \<open>The records stored at a path (none for an absent path).\<close>

definition recordsAt :: "Results \<Rightarrow> string \<Rightarrow> ValueResult list" where
  "recordsAt r path = (case Fields r path of None \<Rightarrow> [] | Some xs \<Rightarrow> xs)"

subsection \<open>Iteration: EachResult, DetailedErrors, Errors\<close>

text \<open>
  \<open>for path, pathResults := range r.Fields\<close> visits every key of the map once, in an
  order the Go runtime chooses. The order is a parameter of the model: a list holding
  each key of \<open>Fields\<close> exactly once.
\<close>

definition iterationOrder :: "Results \<Rightarrow> string list \<Rightarrow> bool" where
  "iterationOrder r paths \<longleftrightarrow> distinct paths \<and> set paths = dom (Fields r)"

text \<open>
  The callback \<open>f func(string, ValueResult) bool\<close> is a closure, so it may update what it
  captured: in the model it takes that state and returns it with its verdict.
\<close>

type_synonym 's visitor = "string \<Rightarrow> ValueResult \<Rightarrow> 's \<Rightarrow> bool \<times> 's"

text \<open>
  The inner loop \<open>for _, result := range pathResults\<close>. The flag returned is false when
  the callback asked to stop (the \<open>return\<close> leaves both loops).
\<close>

fun eachInPath :: "'s visitor \<Rightarrow> string \<Rightarrow> ValueResult list \<Rightarrow> 's \<Rightarrow> bool \<times> 's" where
  "eachInPath f path [] s = (True, s)"
| "eachInPath f path (result # pathResults) s =
     (let (continue, s') = f path result s
      in if \<not> continue then (False, s') else eachInPath f path pathResults s')"

text \<open>The outer loop over the paths, in the given order.\<close>

fun eachPath :: "'s visitor \<Rightarrow> Results \<Rightarrow> string list \<Rightarrow> 's \<Rightarrow> 's" where
  "eachPath f r [] s = s"
| "eachPath f r (path # paths) s =
     (let (continue, s') = eachInPath f path (recordsAt r path) s
      in if \<not> continue then s' else eachPath f r paths s')"

definition EachResult :: "string list \<Rightarrow> Results \<Rightarrow> 's visitor \<Rightarrow> 's \<Rightarrow> 's" where
  "EachResult paths r f s = eachPath f r paths s"

text \<open>
  \<open>DetailedErrors\<close>: the closure captures \<open>errors\<close>, records the failing results into it
  and always returns true.
\<close>

definition DetailedErrors :: "string list \<Rightarrow> Results \<Rightarrow> Results" where
  "DetailedErrors paths r =
     EachResult paths r
       (\<lambda>path vr errors. (True, if \<not> Valid vr then record' errors path vr else errors))
       NewResults"

text \<open>\<open>type ValueResultError struct { path string; valueResult ValueResult }\<close>\<close>

datatype ValueResultError =
  ValueResultError (vre_path: string) (vre_valueResult: ValueResult)

text \<open>
  \<open>fmt.Sprintf("@path '%s': %s", vre.path, vre.valueResult.Message)\<close>: both arguments
  are strings, which \<open>%s\<close> prints as they are.
\<close>

definition Error :: "ValueResultError \<Rightarrow> string" where
  "Error vre =
     ''@path '' @ [CHR 0x27] @ vre_path vre @ [CHR 0x27] @ '': '' @ Message (vre_valueResult vre)"

text \<open>
  \<open>Errors\<close>: the closure appends to the captured slice \<open>errors\<close> and always returns true.
\<close>

definition Errors :: "string list \<Rightarrow> Results \<Rightarrow> ValueResultError list" where
  "Errors paths r =
     EachResult paths r
       (\<lambda>path vr errors. (True, if \<not> Valid vr then errors @ [ValueResultError path vr] else errors))
       []"

subsection \<open>Vocabulary for the properties of iteration\<close>

text \<open>All stored records with their paths, in the order the iteration meets them.\<close>

definition allResults :: "Results \<Rightarrow> string list \<Rightarrow> (string \<times> ValueResult) list" where
  "allResults r paths = concat (map (\<lambda>p. map (Pair p) (recordsAt r p)) paths)"

text \<open>The number of records with \<open>Valid = false\<close> under the listed paths.\<close>

definition countInvalid :: "Results \<Rightarrow> string list \<Rightarrow> nat" where
  "countInvalid r paths = length (filter (\<lambda>(p, x). \<not> Valid x) (allResults r paths))"

text \<open>
  A callback that logs its calls: its state is the list of calls made so far, and its
  verdict \<open>g\<close> may depend on that history and on the current path and record.
\<close>

definition logging ::
  "((string \<times> ValueResult) list \<Rightarrow> string \<Rightarrow> ValueResult \<Rightarrow> bool)
     \<Rightarrow> (string \<times> ValueResult) list visitor" where
  "logging g p x calls = (g calls p x, calls @ [(p, x)])"

definition callsOf ::
  "string list \<Rightarrow> Results
     \<Rightarrow> ((string \<times> ValueResult) list \<Rightarrow> string \<Rightarrow> ValueResult \<Rightarrow> bool)
     \<Rightarrow> (string \<times> ValueResult) list" where
  "callsOf paths r g = EachResult paths r (logging g) []"

text \<open>
  One loop over a sequence of results that stops when the callback says so: what the
  two nested loops of \<open>EachResult\<close> amount to (lemma \<open>eachPath_visitSeq\<close>).
\<close>

fun visitSeq :: "'s visitor \<Rightarrow> (string \<times> ValueResult) list \<Rightarrow> 's \<Rightarrow> 's" where
  "visitSeq f [] s = s"
| "visitSeq f ((p, x) # rest) s =
     (let (continue, s') = f p x s
      in if \<not> continue then s' else visitSeq f rest s')"

text \<open>A small result set used to exercise the iteration: two paths, three records.\<close>

definition exampleResults :: Results where
  "exampleResults =
     record' (record' (record' NewResults ''a'' (ValueResult False ''no'')) ''b'' ValidVR)
       ''a'' (ValueResult False ''bad'')"

section \<open>Values and predicates\<close>

text \<open>
  A \<open>float64\<close>, as far as comparison needs it: not-a-number, the two infinities, the
  negative zero, and the finite values given by their magnitude (\<open>FNum 0\<close> is the
  positive zero).
\<close>

datatype float64 = FNaN | FPosInf | FNegInf | FNegZero | FNum rat

text \<open>
  Go's \<open>==\<close> on \<open>float64\<close>: NaN equals nothing, itself included, and the two zeros are
  equal.
\<close>

fun float_eq :: "float64 \<Rightarrow> float64 \<Rightarrow> bool" where
  "float_eq FNaN b = False"
| "float_eq a FNaN = False"
| "float_eq FNegZero (FNum q) = (q = 0)"
| "float_eq (FNum q) FNegZero = (q = 0)"
| "float_eq a b = (a = b)"

text \<open>
  The values a predicate is applied to are Go \<open>interface{}\<close> values: a dynamic type
  with a representation. The model keeps the kinds the value trees of the spec are made
  of (keyed maps, sequences, scalars of a known kind). Integers are given by their value
  (no property below depends on their width). A slice and a map are either nil or hold
  their elements, so a nil slice and an empty one are two values. A value of the model is
  its content: which slice or map object holds the content is not part of it.
\<close>

datatype gvalue =
    VNil
  | VBool bool
  | VInt int
  | VInt64 int
  | VFloat64 float64
  | VString string
  | VDuration int
  | VNilSlice
  | VSlice "gvalue list"
  | VNilMap
  | VMap "(string, gvalue) fmap"

text \<open>
  The formatting verbs of Go's \<open>fmt\<close> package that the messages are built with are
  parameters of the model: \<open>%v\<close> and \<open>%#v\<close> of a value, and \<open>%#v\<close> of a \<open>[]string\<close>
  (Go prints the latter as \<open>[]string{"a", "b"}\<close>). \<open>%s\<close> of a string is the string.
\<close>

record fmt =
  verb_v :: "gvalue \<Rightarrow> string"
  verb_sharp_v :: "gvalue \<Rightarrow> string"
  verb_sharp_v_strings :: "string list \<Rightarrow> string"

type_synonym ValueValidator = "gvalue \<Rightarrow> ValueResult"

text \<open>
  Modelled from the spec: the declaration of \<open>IsDef\<close> is not among the source files.
  The source names its fields \<open>name\<close> and \<open>checkKeyMissing\<close> (the spec's \<open>name\<close> and
  \<open>matchesMissingKey\<close>) and builds \<open>KeyPresent\<close> without a checking function, so that
  field is optional.
\<close>

record IsDef =
  name :: string
  checker :: "ValueValidator option"
  checkKeyMissing :: bool

text \<open>
  Modelled from the spec: \<open>Is(name, checkFn)\<close>, which "wraps a raw checking function
  into a Value Predicate, attaching the name for diagnostics".
\<close>

definition Is :: "string \<Rightarrow> ValueValidator \<Rightarrow> IsDef" where
  "Is nm chk = \<lparr>name = nm, checker = Some chk, checkKeyMissing = False\<rparr>"

text \<open>
  Modelled from the spec: the method \<open>check\<close> of \<open>IsDef\<close>, which the source calls as
  \<open>def.check(v, true)\<close>: the value and whether the key exists. By the spec a missing-key
  predicate "matches if the key does not exist at all" and is decided by existence
  alone; any other predicate does not match an absent key; \<open>KeyPresent\<close> "matches if a
  key exists in the enclosing map regardless of its value"; otherwise the checking
  function decides. The spec does not give the two message texts used here, and no
  property below depends on them.
\<close>

definition check :: "IsDef \<Rightarrow> gvalue \<Rightarrow> bool \<Rightarrow> ValueResult" where
  "check d v keyExists =
     (if checkKeyMissing d then
        (if \<not> keyExists then ValidVR else ValueResult False ''key should not exist'')
      else if \<not> keyExists then ValueResult False ''expected to see a key here''
      else (case checker d of None \<Rightarrow> ValidVR | Some chk \<Rightarrow> chk v))"

text \<open>\<open>var KeyPresent = IsDef{name: "check key present"}\<close>\<close>

definition KeyPresent :: IsDef where
  "KeyPresent = \<lparr>name = ''check key present'', checker = None, checkKeyMissing = False\<rparr>"

text \<open>\<open>var KeyMissing = IsDef{name: "check key not present", checkKeyMissing: true}\<close>\<close>

definition KeyMissing :: IsDef where
  "KeyMissing = \<lparr>name = ''check key not present'', checker = None, checkKeyMissing = True\<rparr>"

text \<open>
  Modelled from the spec: the walker's step at a leaf of the schema, for the key \<open>k\<close> of
  the enclosing map \<open>m\<close>. The walker is not among the source files. By the spec it looks
  the key up, passes the child value or, for an absent key, no value at all, and a
  missing-key predicate is decided by existence before any value is read.
\<close>

definition checkKey :: "IsDef \<Rightarrow> (string \<rightharpoonup> gvalue) \<Rightarrow> string \<Rightarrow> ValueResult" where
  "checkKey d m k = (case m k of None \<Rightarrow> check d VNil False | Some v \<Rightarrow> check d v True)"

subsection \<open>IsAny\<close>

text \<open>
  The loop of the closure of \<open>IsAny\<close>: the first candidate whose record is valid decides;
  when the loop ends without one, the failure record is built from \<open>names\<close> and \<open>v\<close>.
\<close>

fun anyOf :: "fmt \<Rightarrow> string list \<Rightarrow> IsDef list \<Rightarrow> gvalue \<Rightarrow> ValueResult" where
  "anyOf F names [] v =
     ValueResult False
       (''Value was none of '' @ verb_sharp_v_strings F names
          @ '', actual value was '' @ verb_sharp_v F v)"
| "anyOf F names (def # rest) v =
     (let vr = check def v True
      in if Valid vr then vr else anyOf F names rest v)"

text \<open>
  The candidates on which that loop calls \<open>check\<close>, in the order of the calls: the loop
  goes on to the next candidate only after an invalid record.
\<close>

fun anyOfCalls :: "IsDef list \<Rightarrow> gvalue \<Rightarrow> IsDef list" where
  "anyOfCalls [] v = []"
| "anyOfCalls (def # rest) v =
     (let vr = check def v True
      in if Valid vr then [def] else def # anyOfCalls rest v)"

text \<open>\<open>func IsAny(of ...IsDef) IsDef\<close>; the parameter \<open>of\<close> is called \<open>defs\<close> here.\<close>

definition IsAny :: "fmt \<Rightarrow> IsDef list \<Rightarrow> IsDef" where
  "IsAny F defs =
     (let names = map name defs;
          isName = ''either '' @ verb_sharp_v_strings F names
      in Is isName (\<lambda>v. anyOf F names defs v))"

subsection \<open>IsStringContaining\<close>

text \<open>
  \<open>strings.Contains(s, substr)\<close> of the Go library: whether \<open>substr\<close> occurs in \<open>s\<close> as a
  contiguous run of bytes (lemma \<open>Contains_iff\<close>).
\<close>

fun Contains :: "string \<Rightarrow> string \<Rightarrow> bool" where
  "Contains [] substr = (substr = [])"
| "Contains (c # s) substr = (prefix substr (c # s) \<or> Contains s substr)"

text \<open>
  The type assertion \<open>v.(string)\<close> succeeds exactly on a value whose dynamic type is
  \<open>string\<close>.
\<close>

definition IsStringContaining :: "fmt \<Rightarrow> string \<Rightarrow> IsDef" where
  "IsStringContaining F needle =
     Is ''is string containing''
       (\<lambda>v. case v of
          VString strV \<Rightarrow>
            if \<not> Contains strV needle then
              ValueResult False
                (''String '' @ [CHR 0x27] @ strV @ [CHR 0x27] @ '' did not contain substring ''
                   @ [CHR 0x27] @ needle @ [CHR 0x27])
            else ValidVR
        | _ \<Rightarrow>
            ValueResult False
              (''Unable to convert '' @ [CHR 0x27] @ verb_v F v @ [CHR 0x27] @ '' to string''))"

subsection \<open>IsEqual and IsEqualToValue\<close>

text \<open>
  \<open>reflect.DeepEqual\<close> of the Go library, on two values held apart (its short cut for
  one and the same slice or map object does not arise on contents): values of different
  types are never deeply equal; floats are compared with \<open>==\<close>; two slices are deeply
  equal when both are nil or both are not, with equal lengths and deeply equal elements
  at each index; two maps when both are nil or both are not, with the same keys and
  deeply equal values under each key.
\<close>

primrec DeepEqual :: "gvalue \<Rightarrow> gvalue \<Rightarrow> bool" where
  "DeepEqual VNil y = (y = VNil)"
| "DeepEqual (VBool a) y = (y = VBool a)"
| "DeepEqual (VInt a) y = (y = VInt a)"
| "DeepEqual (VInt64 a) y = (y = VInt64 a)"
| "DeepEqual (VFloat64 a) y = (case y of VFloat64 b \<Rightarrow> float_eq a b | _ \<Rightarrow> False)"
| "DeepEqual (VString a) y = (y = VString a)"
| "DeepEqual (VDuration a) y = (y = VDuration a)"
| "DeepEqual VNilSlice y = (y = VNilSlice)"
| "DeepEqual (VSlice xs) y =
     (case y of
        VSlice ys \<Rightarrow> list_all2 (\<lambda>eq b. eq b) (map DeepEqual xs) ys
      | _ \<Rightarrow> False)"
| "DeepEqual VNilMap y = (y = VNilMap)"
| "DeepEqual (VMap m) y =
     (case y of
        VMap n \<Rightarrow> fmrel (\<lambda>eq b. eq b) (fmmap DeepEqual m) n
      | _ \<Rightarrow> False)"

text \<open>
  Modelled from the spec: \<open>assert.ObjectsAreEqual\<close>, of the vendored testify library,
  is not among the source files. The spec: "deep structural equality between actual and
  expected value, honoring type identity (a value of type X and type Y with equal
  representation are NOT equal)". Deep equality is Go's, which the library calls.
\<close>

definition ObjectsAreEqual :: "gvalue \<Rightarrow> gvalue \<Rightarrow> bool" where
  "ObjectsAreEqual expected actual \<longleftrightarrow> DeepEqual expected actual"

text \<open>The value holds no NaN, at any depth.\<close>

primrec noNaN :: "gvalue \<Rightarrow> bool" where
  "noNaN VNil = True"
| "noNaN (VBool a) = True"
| "noNaN (VInt a) = True"
| "noNaN (VInt64 a) = True"
| "noNaN (VFloat64 a) = (a \<noteq> FNaN)"
| "noNaN (VString a) = True"
| "noNaN (VDuration a) = True"
| "noNaN VNilSlice = True"
| "noNaN (VSlice xs) = list_all (\<lambda>b. b) (map noNaN xs)"
| "noNaN VNilMap = True"
| "noNaN (VMap m) = fmpred (\<lambda>k b. b) (fmmap noNaN m)"

text \<open>
  The value with every negative float zero replaced by the positive one: two values
  differ in more than the sign of a zero exactly when their images differ.
\<close>

primrec oneZero :: "gvalue \<Rightarrow> gvalue" where
  "oneZero VNil = VNil"
| "oneZero (VBool a) = VBool a"
| "oneZero (VInt a) = VInt a"
| "oneZero (VInt64 a) = VInt64 a"
| "oneZero (VFloat64 a) = VFloat64 (if a = FNegZero then FNum 0 else a)"
| "oneZero (VString a) = VString a"
| "oneZero (VDuration a) = VDuration a"
| "oneZero VNilSlice = VNilSlice"
| "oneZero (VSlice xs) = VSlice (map oneZero xs)"
| "oneZero VNilMap = VNilMap"
| "oneZero (VMap m) = VMap (fmmap oneZero m)"

text \<open>The magnitude of a value of a numeric kind.\<close>

fun magnitude :: "gvalue \<Rightarrow> rat option" where
  "magnitude (VInt i) = Some (of_int i)"
| "magnitude (VInt64 i) = Some (of_int i)"
| "magnitude (VDuration i) = Some (of_int i)"
| "magnitude (VFloat64 (FNum q)) = Some q"
| "magnitude (VFloat64 FNegZero) = Some 0"
| "magnitude _ = None"

text \<open>
  Modelled from the spec: \<open>assert.ObjectsAreEqualValues\<close>, of the same library. The
  spec: "like equality but tolerant of numeric/representation type differences (e.g.,
  integer vs. float with same magnitude)".
\<close>

definition ObjectsAreEqualValues :: "gvalue \<Rightarrow> gvalue \<Rightarrow> bool" where
  "ObjectsAreEqualValues expected actual \<longleftrightarrow>
     ObjectsAreEqual expected actual
     \<or> (case (magnitude expected, magnitude actual) of
           (Some a, Some b) \<Rightarrow> a = b
         | _ \<Rightarrow> False)"

text \<open>
  The source passes the actual value first: \<open>assert.ObjectsAreEqual(v, to)\<close>.
\<close>

definition IsEqual :: "fmt \<Rightarrow> gvalue \<Rightarrow> IsDef" where
  "IsEqual F to =
     Is ''equals''
       (\<lambda>v. if ObjectsAreEqual v to then ValidVR
            else ValueResult False
              (''objects not equal: actual('' @ verb_v F v @ '') != expected(''
                 @ verb_v F to @ '')''))"

definition IsEqualToValue :: "fmt \<Rightarrow> gvalue \<Rightarrow> IsDef" where
  "IsEqualToValue F to =
     Is ''equals''
       (\<lambda>v. if ObjectsAreEqualValues v to then ValidVR
            else ValueResult False
              (''values not equal: actual('' @ verb_v F v @ '') != expected(''
                 @ verb_v F to @ '')''))"

section \<open>Properties of the result set\<close>

lemma Fields_record':
  "Fields (record' r path result) = (Fields r)(path \<mapsto> recordsAt r path @ [result])"
  by (simp add: record'_def recordsAt_def Let_def split: option.splits)

lemma ValidR_record': "ValidR (record' r path result) \<longleftrightarrow> ValidR r \<and> Valid result"
  by (simp add: record'_def Let_def split: option.splits)

lemma recordsAt_record':
  "recordsAt (record' r path result) p =
     (if p = path then recordsAt r path @ [result] else recordsAt r p)"
  by (simp add: recordsAt_def Fields_record')

lemma reachable_ValidR:
  "reachable r \<Longrightarrow> ValidR r \<longleftrightarrow> (\<forall>p. \<forall>x \<in> set (recordsAt r p). Valid x)"
proof (induction rule: reachable.induct)
  case init
  show ?case by (simp add: NewResults_def recordsAt_def)
next
  case (step r path result)
  show ?case
    unfolding ValidR_record' step.IH
    by (auto simp: recordsAt_record' split: if_splits)
qed

text \<open>
  C1. On every result set built from \<open>NewResults()\<close> by \<open>record\<close> calls, the aggregate
  flag is the conjunction of the \<open>Valid\<close> fields of all records stored under all paths;
  one more \<open>record\<close> call gives the old flag conjoined with the new record's, so the flag
  only moves from true to false and a false flag stays false.
\<close>

theorem record_Valid_conjunction:
  assumes "reachable r"
  shows "(ValidR r \<longleftrightarrow> (\<forall>p xs. Fields r p = Some xs \<longrightarrow> (\<forall>x \<in> set xs. Valid x)))
       \<and> (ValidR (record' r path result) \<longleftrightarrow> ValidR r \<and> Valid result)
       \<and> (\<not> ValidR r \<longrightarrow> \<not> ValidR (record' r path result))"
proof -
  have "(\<forall>x \<in> set (recordsAt r p). Valid x)
      \<longleftrightarrow> (\<forall>xs. Fields r p = Some xs \<longrightarrow> (\<forall>x \<in> set xs. Valid x))" for p
    by (cases "Fields r p") (simp_all add: recordsAt_def)
  with reachable_ValidR [OF assms] show ?thesis
    by (simp add: ValidR_record')
qed

theorem record_Valid_conjunction_witness:
  "reachable (record' (record' NewResults ''a'' ValidVR) ''a.b'' (ValueResult False ''not nil''))
   \<and> \<not> ValidR (record' (record' NewResults ''a'' ValidVR) ''a.b'' (ValueResult False ''not nil''))
   \<and> \<not> (\<forall>p xs. Fields (record' (record' NewResults ''a'' ValidVR) ''a.b''
                (ValueResult False ''not nil'')) p = Some xs \<longrightarrow> (\<forall>x \<in> set xs. Valid x))
   \<and> \<not> ValidR (record' (record' (record' NewResults ''a'' ValidVR) ''a.b''
                (ValueResult False ''not nil'')) ''c'' ValidVR)"
proof -
  let ?r = "record' (record' NewResults ''a'' ValidVR) ''a.b'' (ValueResult False ''not nil'')"
  have h: "reachable ?r"
    by (intro reachable.intros)
  have v: "\<not> ValidR ?r"
    by (simp add: ValidR_record')
  from record_Valid_conjunction [OF h, of "''c''" ValidVR] v h show ?thesis
    by blast
qed

section \<open>Properties of iteration\<close>

lemma eachInPath_visitSeq:
  "visitSeq f (map (Pair p) xs @ rest) s =
     (let (c, s') = eachInPath f p xs s in if \<not> c then s' else visitSeq f rest s')"
  by (induction xs arbitrary: s) (simp_all split: prod.splits)

lemma eachPath_visitSeq: "eachPath f r ps s = visitSeq f (allResults r ps) s"
proof (induction ps arbitrary: s)
  case Nil
  show ?case by (simp add: allResults_def)
next
  case (Cons p ps)
  have "allResults r (p # ps) = map (Pair p) (recordsAt r p) @ allResults r ps"
    by (simp add: allResults_def)
  then show ?case
    by (simp add: eachInPath_visitSeq Cons.IH split: prod.splits)
qed

lemma visitSeq_always:
  "visitSeq (\<lambda>p x s. (True, h p x s)) xs s = fold (\<lambda>(p, x). h p x) xs s"
  by (induction xs arbitrary: s) auto

lemma visitSeq_logging:
  "\<exists>ys. visitSeq (logging g) xs h = h @ ys \<and> prefix ys xs
      \<and> (\<forall>h' p x. prefix (h' @ [(p, x)]) ys \<longrightarrow> \<not> g (h @ h') p x \<longrightarrow> ys = h' @ [(p, x)])
      \<and> (ys \<noteq> xs \<longrightarrow> (\<exists>h' p x. ys = h' @ [(p, x)] \<and> \<not> g (h @ h') p x))"
proof (induction xs arbitrary: h)
  case Nil
  show ?case by simp
next
  case (Cons a rest)
  obtain p x where a: "a = (p, x)" by (cases a)
  show ?case
  proof (cases "g h p x")
    case False
    then have "visitSeq (logging g) (a # rest) h = h @ [(p, x)]"
      by (simp add: a logging_def)
    moreover have "prefix [(p, x)] (a # rest)"
      by (simp add: a)
    moreover have "\<forall>h' q y. prefix (h' @ [(q, y)]) [(p, x)] \<longrightarrow> \<not> g (h @ h') q y
         \<longrightarrow> [(p, x)] = h' @ [(q, y)]"
      by (auto simp: prefix_Cons Cons_eq_append_conv append_eq_Cons_conv)
    moreover have "\<exists>h' q y. [(p, x)] = h' @ [(q, y)] \<and> \<not> g (h @ h') q y"
      using False by (intro exI [of _ "[]"] exI [of _ p] exI [of _ x]) simp
    ultimately show ?thesis by blast
  next
    case True
    from Cons.IH [of "h @ [(p, x)]"] obtain ys where
      ys: "visitSeq (logging g) rest (h @ [(p, x)]) = (h @ [(p, x)]) @ ys"
      and pre: "prefix ys rest"
      and stop: "\<And>h' q y. prefix (h' @ [(q, y)]) ys \<Longrightarrow> \<not> g ((h @ [(p, x)]) @ h') q y
          \<Longrightarrow> ys = h' @ [(q, y)]"
      and early: "ys \<noteq> rest \<Longrightarrow> \<exists>h' q y. ys = h' @ [(q, y)] \<and> \<not> g ((h @ [(p, x)]) @ h') q y"
      by blast
    have 1: "visitSeq (logging g) (a # rest) h = h @ ((p, x) # ys)"
      using True ys by (simp add: a logging_def)
    have 2: "prefix ((p, x) # ys) (a # rest)"
      using pre by (simp add: a)
    have 3: "(p, x) # ys = h' @ [(q, y)]"
      if "prefix (h' @ [(q, y)]) ((p, x) # ys)" and "\<not> g (h @ h') q y" for h' q y
    proof (cases h')
      case Nil
      with that True show ?thesis by auto
    next
      case (Cons b h'')
      with that have b: "b = (p, x)" and pre': "prefix (h'' @ [(q, y)]) ys" by auto
      have "\<not> g ((h @ [(p, x)]) @ h'') q y"
        using that(2) Cons b by simp
      with pre' have "ys = h'' @ [(q, y)]" by (rule stop)
      then show ?thesis using Cons b by simp
    qed
    have 4: "\<exists>h' q y. (p, x) # ys = h' @ [(q, y)] \<and> \<not> g (h @ h') q y"
      if "(p, x) # ys \<noteq> a # rest"
    proof -
      from that have "ys \<noteq> rest" by (simp add: a)
      from early [OF this] obtain h' q y where "ys = h' @ [(q, y)]"
        and "\<not> g ((h @ [(p, x)]) @ h') q y" by blast
      then have "(p, x) # ys = ((p, x) # h') @ [(q, y)] \<and> \<not> g (h @ ((p, x) # h')) q y"
        by simp
      then show ?thesis by blast
    qed
    from 1 2 3 4 show ?thesis by blast
  qed
qed

lemma recordsAt_outside: "p \<notin> dom (Fields r) \<Longrightarrow> recordsAt r p = []"
  by (auto simp: recordsAt_def split: option.splits)

lemma allResults_at:
  "distinct ps \<Longrightarrow>
     filter (\<lambda>(q, x). q = p) (allResults r ps) = (if p \<in> set ps then map (Pair p) (recordsAt r p) else [])"
proof (induction ps)
  case Nil
  show ?case by (simp add: allResults_def)
next
  case (Cons a ps)
  have split: "allResults r (a # ps) = map (Pair a) (recordsAt r a) @ allResults r ps"
    by (simp add: allResults_def)
  have here: "filter (\<lambda>(q, x). q = p) (map (Pair a) (recordsAt r a))
      = (if a = p then map (Pair p) (recordsAt r p) else [])"
    by (induction "recordsAt r a") (auto simp: filter_map o_def)
  from Cons show ?case
    by (auto simp: split here)
qed

lemma allResults_each_once:
  assumes "iterationOrder r paths"
  shows "filter (\<lambda>(q, x). q = p) (allResults r paths) = map (Pair p) (recordsAt r p)"
proof -
  from assms have d: "distinct paths" and s: "set paths = dom (Fields r)"
    by (simp_all add: iterationOrder_def)
  show ?thesis
    using allResults_at [OF d, of p r] recordsAt_outside [of p r] s by auto
qed

text \<open>
  C9. \<open>EachResult\<close> calls the visitor on the stored results in iteration order, each
  stored result of each path being met once. The calls made form an initial segment of
  that sequence; a call that returns false is the last call made; the iteration ends
  before the end of the sequence only by such a call; and a visitor that always returns
  true is called on every stored result.
\<close>

theorem EachResult_early_stop:
  assumes "iterationOrder r paths"
  shows "prefix (callsOf paths r g) (allResults r paths)
    \<and> (\<forall>p. filter (\<lambda>(q, x). q = p) (allResults r paths) = map (Pair p) (recordsAt r p))
    \<and> (\<forall>h p x. prefix (h @ [(p, x)]) (callsOf paths r g) \<longrightarrow> \<not> g h p x
          \<longrightarrow> callsOf paths r g = h @ [(p, x)])
    \<and> (callsOf paths r g \<noteq> allResults r paths
          \<longrightarrow> (\<exists>h p x. callsOf paths r g = h @ [(p, x)] \<and> \<not> g h p x))
    \<and> ((\<forall>h p x. g h p x) \<longrightarrow> callsOf paths r g = allResults r paths)"
proof -
  have calls: "callsOf paths r g = visitSeq (logging g) (allResults r paths) []"
    by (simp add: callsOf_def EachResult_def eachPath_visitSeq)
  from visitSeq_logging [of g "allResults r paths" "[]"] calls
  have 1: "prefix (callsOf paths r g) (allResults r paths)"
    and 2: "\<forall>h p x. prefix (h @ [(p, x)]) (callsOf paths r g) \<longrightarrow> \<not> g h p x
          \<longrightarrow> callsOf paths r g = h @ [(p, x)]"
    and 3: "callsOf paths r g \<noteq> allResults r paths
          \<longrightarrow> (\<exists>h p x. callsOf paths r g = h @ [(p, x)] \<and> \<not> g h p x)"
    by auto
  from 3 have 4: "(\<forall>h p x. g h p x) \<longrightarrow> callsOf paths r g = allResults r paths"
    by blast
  from allResults_each_once [OF assms]
  have 5: "\<forall>p. filter (\<lambda>(q, x). q = p) (allResults r paths) = map (Pair p) (recordsAt r p)"
    by blast
  from 1 2 3 4 5 show ?thesis by blast
qed


section \<open>Properties of the error views\<close>

lemma set_allResults: "set (allResults r ps) = {(p, x). p \<in> set ps \<and> x \<in> set (recordsAt r p)}"
  by (auto simp: allResults_def)

lemma countInvalid_sum_list:
  "countInvalid r ps = sum_list (map (\<lambda>q. length (filter (\<lambda>x. \<not> Valid x) (recordsAt r q))) ps)"
proof (induction ps)
  case Nil
  show ?case by (simp add: countInvalid_def allResults_def)
next
  case (Cons a ps)
  have "length (filter (\<lambda>(p, x). \<not> Valid x) (map (Pair a) xs)) = length (filter (\<lambda>x. \<not> Valid x) xs)" for xs
    by (induction xs) simp_all
  with Cons show ?case
    by (simp add: countInvalid_def allResults_def)
qed

lemma DetailedErrors_fold:
  "DetailedErrors paths r =
     fold (\<lambda>(p, x) e. if \<not> Valid x then record' e p x else e) (allResults r paths) NewResults"
  by (simp add: DetailedErrors_def EachResult_def eachPath_visitSeq visitSeq_always)

lemma fold_invalid_recordsAt:
  "recordsAt (fold (\<lambda>(p, x) e. if \<not> Valid x then record' e p x else e) xs e) q
     = recordsAt e q @ map snd (filter (\<lambda>(p, x). p = q \<and> \<not> Valid x) xs)"
proof (induction xs arbitrary: e)
  case Nil
  show ?case by simp
next
  case (Cons a xs)
  obtain p x where a: "a = (p, x)" by (cases a)
  show ?case
    by (cases "Valid x") (simp_all add: a Cons.IH recordsAt_record')
qed

lemma dom_record': "dom (Fields (record' e p x)) = insert p (dom (Fields e))"
  by (simp add: Fields_record')

lemma fold_invalid_dom:
  "dom (Fields (fold (\<lambda>(p, x) e. if \<not> Valid x then record' e p x else e) xs e))
     = dom (Fields e) \<union> {p. \<exists>x. (p, x) \<in> set xs \<and> \<not> Valid x}"
proof (induction xs arbitrary: e)
  case Nil
  show ?case by simp
next
  case (Cons a xs)
  obtain p x where a: "a = (p, x)" by (cases a)
  show ?case
    by (cases "Valid x") (auto simp: a Cons.IH dom_record')
qed

lemma DetailedErrors_recordsAt:
  assumes "iterationOrder r paths"
  shows "recordsAt (DetailedErrors paths r) q = filter (\<lambda>x. \<not> Valid x) (recordsAt r q)"
proof -
  have "filter (\<lambda>(p, x). p = q \<and> \<not> Valid x) (allResults r paths)
      = filter (\<lambda>(p, x). \<not> Valid x) (filter (\<lambda>(p, x). p = q) (allResults r paths))"
    by (simp add: case_prod_unfold conj_commute)
  also have "\<dots> = filter (\<lambda>(p, x). \<not> Valid x) (map (Pair q) (recordsAt r q))"
    by (simp only: allResults_each_once [OF assms])
  also have "map snd \<dots> = filter (\<lambda>x. \<not> Valid x) (recordsAt r q)"
    by (induction "recordsAt r q") (simp_all add: filter_map o_def)
  finally have "map snd (filter (\<lambda>(p, x). p = q \<and> \<not> Valid x) (allResults r paths))
      = filter (\<lambda>x. \<not> Valid x) (recordsAt r q)" .
  moreover have "recordsAt NewResults q = []"
    by (simp add: NewResults_def recordsAt_def)
  ultimately show ?thesis
    by (simp add: DetailedErrors_fold fold_invalid_recordsAt)
qed

lemma DetailedErrors_dom:
  "dom (Fields (DetailedErrors paths r))
     = {p \<in> set paths. filter (\<lambda>x. \<not> Valid x) (recordsAt r p) \<noteq> []}"
  by (auto simp: DetailedErrors_fold fold_invalid_dom set_allResults NewResults_def filter_empty_conv)

lemma DetailedErrors_count:
  assumes "iterationOrder r paths" and "iterationOrder (DetailedErrors paths r) paths'"
  shows "countInvalid (DetailedErrors paths r) paths' = countInvalid r paths"
proof -
  let ?c = "\<lambda>q. length (filter (\<lambda>x. \<not> Valid x) (recordsAt r q))"
  from assms have d: "distinct paths" and d': "distinct paths'"
    and s': "set paths' = dom (Fields (DetailedErrors paths r))"
    by (simp_all add: iterationOrder_def)
  have sub: "set paths' \<subseteq> set paths" and zero: "\<forall>q \<in> set paths - set paths'. ?c q = 0"
    unfolding s' DetailedErrors_dom by auto
  have "countInvalid (DetailedErrors paths r) paths' = sum_list (map ?c paths')"
    by (simp add: countInvalid_sum_list DetailedErrors_recordsAt [OF assms(1)])
  also have "\<dots> = sum ?c (set paths')"
    using d' by (simp add: sum_list_distinct_conv_sum_set)
  also have "\<dots> = sum ?c (set paths)"
    using sub zero by (intro sum.mono_neutral_left) auto
  also have "\<dots> = sum_list (map ?c paths)"
    using d by (simp add: sum_list_distinct_conv_sum_set)
  finally show ?thesis
    by (simp add: countInvalid_sum_list)
qed

lemma countInvalid_zero:
  assumes "iterationOrder r paths"
  shows "countInvalid r paths = 0 \<longleftrightarrow> (\<forall>p. \<forall>x \<in> set (recordsAt r p). Valid x)"
proof -
  from assms have s: "set paths = dom (Fields r)"
    by (simp add: iterationOrder_def)
  have "countInvalid r paths = 0 \<longleftrightarrow> (\<forall>p \<in> set paths. \<forall>x \<in> set (recordsAt r p). Valid x)"
    by (auto simp: countInvalid_def set_allResults filter_empty_conv)
  also have "\<dots> \<longleftrightarrow> (\<forall>p. \<forall>x \<in> set (recordsAt r p). Valid x)"
    using recordsAt_outside [of _ r] s by (metis empty_iff empty_set)
  finally show ?thesis .
qed

text \<open>
  C7. For a result set built by \<open>record\<close> calls, \<open>DetailedErrors()\<close> holds as many
  failing records as \<open>Fields\<close> holds records with \<open>Valid = false\<close>, and nothing else;
  under each path it holds that path's failing records, in their order; and the
  receiver's flag is false exactly when that count is not zero.
\<close>

theorem DetailedErrors_complete:
  assumes "reachable r" and "iterationOrder r paths"
    and "iterationOrder (DetailedErrors paths r) paths'"
  shows "countInvalid (DetailedErrors paths r) paths' = countInvalid r paths
       \<and> length (allResults (DetailedErrors paths r) paths') = countInvalid r paths
       \<and> (\<forall>p. recordsAt (DetailedErrors paths r) p = filter (\<lambda>x. \<not> Valid x) (recordsAt r p))
       \<and> (\<not> ValidR r \<longleftrightarrow> countInvalid (DetailedErrors paths r) paths' \<noteq> 0)"
proof -
  let ?d = "DetailedErrors paths r"
  have 1: "countInvalid ?d paths' = countInvalid r paths"
    by (rule DetailedErrors_count [OF assms(2,3)])
  have at: "recordsAt ?d p = filter (\<lambda>x. \<not> Valid x) (recordsAt r p)" for p
    by (rule DetailedErrors_recordsAt [OF assms(2)])
  have "filter (\<lambda>(p, x). \<not> Valid x) (allResults ?d paths') = allResults ?d paths'"
    by (rule filter_True) (auto simp: set_allResults at)
  then have 2: "length (allResults ?d paths') = countInvalid r paths"
    using 1 by (simp add: countInvalid_def)
  have 4: "\<not> ValidR r \<longleftrightarrow> countInvalid ?d paths' \<noteq> 0"
    unfolding 1 countInvalid_zero [OF assms(2)] reachable_ValidR [OF assms(1)] by simp
  from 1 2 at 4 show ?thesis by blast
qed

lemma fold_errors:
  "fold (\<lambda>(p, x) es. if \<not> Valid x then es @ [ValueResultError p x] else es) xs acc
     = acc @ map (\<lambda>(p, x). ValueResultError p x) (filter (\<lambda>(p, x). \<not> Valid x) xs)"
proof (induction xs arbitrary: acc)
  case Nil
  show ?case by simp
next
  case (Cons a xs)
  obtain p x where a: "a = (p, x)" by (cases a)
  show ?case
    by (cases "Valid x") (simp_all add: a Cons.IH)
qed

lemma Errors_filter:
  "Errors paths r =
     map (\<lambda>(p, x). ValueResultError p x) (filter (\<lambda>(p, x). \<not> Valid x) (allResults r paths))"
  by (simp add: Errors_def EachResult_def eachPath_visitSeq visitSeq_always fold_errors)

lemma Errors_at:
  assumes "iterationOrder r paths"
  shows "filter (\<lambda>e. vre_path e = p) (Errors paths r)
     = map (ValueResultError p) (filter (\<lambda>x. \<not> Valid x) (recordsAt r p))"
proof -
  have "filter (\<lambda>e. vre_path e = p) (Errors paths r)
      = map (\<lambda>(p, x). ValueResultError p x)
          (filter (\<lambda>(q, x). \<not> Valid x) (filter (\<lambda>(q, x). q = p) (allResults r paths)))"
    by (simp add: Errors_filter filter_map o_def case_prod_unfold conj_commute)
  also have "\<dots> = map (\<lambda>(p, x). ValueResultError p x)
          (filter (\<lambda>(q, x). \<not> Valid x) (map (Pair p) (recordsAt r p)))"
    by (simp only: allResults_each_once [OF assms])
  also have "\<dots> = map (ValueResultError p) (filter (\<lambda>x. \<not> Valid x) (recordsAt r p))"
    by (induction "recordsAt r p") (simp_all add: filter_map o_def)
  finally show ?thesis .
qed

text \<open>
  C8. \<open>Errors()\<close> returns one error for each failing record and none for a valid one:
  under every path, the errors carrying that path are the path's failing records in
  their order. Each error renders as \<open>@path '<path>': <message>\<close> with the path and the
  message of its record.
\<close>

theorem Errors_one_per_failing:
  assumes "iterationOrder r paths"
  shows "Errors paths r =
           map (\<lambda>(p, x). ValueResultError p x)
             (filter (\<lambda>(p, x). \<not> Valid x) (allResults r paths))
       \<and> length (Errors paths r) = countInvalid r paths
       \<and> (\<forall>p. filter (\<lambda>e. vre_path e = p) (Errors paths r)
               = map (ValueResultError p) (filter (\<lambda>x. \<not> Valid x) (recordsAt r p)))
       \<and> (\<forall>e \<in> set (Errors paths r). \<not> Valid (vre_valueResult e)
             \<and> Error e = ''@path '' @ [CHR 0x27] @ vre_path e @ [CHR 0x27] @ '': ''
                   @ Message (vre_valueResult e))"
proof -
  have 1: "length (Errors paths r) = countInvalid r paths"
    by (simp add: Errors_filter countInvalid_def)
  have 2: "\<forall>e \<in> set (Errors paths r). \<not> Valid (vre_valueResult e)"
    by (auto simp: Errors_filter)
  from Errors_filter [of paths r] 1 2 Errors_at [OF assms] show ?thesis
    by (simp add: Error_def)
qed


section \<open>The properties on the example result set\<close>

lemma exampleResults_order: "iterationOrder exampleResults [''b'', ''a'']"
  by (auto simp: iterationOrder_def exampleResults_def dom_record' NewResults_def)

lemma exampleResults_at:
  "recordsAt exampleResults ''a'' = [ValueResult False ''no'', ValueResult False ''bad'']"
  "recordsAt exampleResults ''b'' = [ValidVR]"
  by (simp_all add: exampleResults_def recordsAt_record') (simp_all add: recordsAt_def NewResults_def)

theorem EachResult_early_stop_witness:
  "iterationOrder exampleResults [''b'', ''a'']
   \<and> allResults exampleResults [''b'', ''a'']
       = [(''b'', ValidVR), (''a'', ValueResult False ''no''), (''a'', ValueResult False ''bad'')]
   \<and> callsOf [''b'', ''a''] exampleResults (\<lambda>h p x. Valid x)
       = [(''b'', ValidVR), (''a'', ValueResult False ''no'')]
   \<and> prefix (callsOf [''b'', ''a''] exampleResults (\<lambda>h p x. Valid x))
        (allResults exampleResults [''b'', ''a''])
   \<and> callsOf [''b'', ''a''] exampleResults (\<lambda>h p x. True)
       = allResults exampleResults [''b'', ''a'']"
proof -
  have a: "allResults exampleResults [''b'', ''a'']
       = [(''b'', ValidVR), (''a'', ValueResult False ''no''), (''a'', ValueResult False ''bad'')]"
    by (simp add: allResults_def exampleResults_at)
  have c: "callsOf [''b'', ''a''] exampleResults (\<lambda>h p x. Valid x)
       = [(''b'', ValidVR), (''a'', ValueResult False ''no'')]"
    by (simp add: callsOf_def EachResult_def exampleResults_at logging_def ValidVR_def)
  from EachResult_early_stop [OF exampleResults_order, of "\<lambda>h p x. Valid x"]
  have p: "prefix (callsOf [''b'', ''a''] exampleResults (\<lambda>h p x. Valid x))
        (allResults exampleResults [''b'', ''a''])"
    by blast
  from EachResult_early_stop [OF exampleResults_order, of "\<lambda>h p x. True"]
  have t: "callsOf [''b'', ''a''] exampleResults (\<lambda>h p x. True)
       = allResults exampleResults [''b'', ''a'']"
    by blast
  from exampleResults_order a c p t show ?thesis
    by blast
qed

lemma exampleResults_reachable: "reachable exampleResults"
  unfolding exampleResults_def by (intro reachable.intros)

lemma exampleResults_errors_order:
  "iterationOrder (DetailedErrors [''b'', ''a''] exampleResults) [''a'']"
  by (auto simp: iterationOrder_def DetailedErrors_dom exampleResults_at ValidVR_def)

theorem DetailedErrors_complete_witness:
  "reachable exampleResults
   \<and> iterationOrder exampleResults [''b'', ''a'']
   \<and> iterationOrder (DetailedErrors [''b'', ''a''] exampleResults) [''a'']
   \<and> countInvalid exampleResults [''b'', ''a''] = 2
   \<and> countInvalid (DetailedErrors [''b'', ''a''] exampleResults) [''a''] = 2
   \<and> recordsAt (DetailedErrors [''b'', ''a''] exampleResults) ''a''
       = [ValueResult False ''no'', ValueResult False ''bad'']
   \<and> \<not> ValidR exampleResults"
proof -
  have n: "countInvalid exampleResults [''b'', ''a''] = 2"
    by (simp add: countInvalid_def allResults_def exampleResults_at ValidVR_def)
  from DetailedErrors_complete
    [OF exampleResults_reachable exampleResults_order exampleResults_errors_order] n
  have "countInvalid (DetailedErrors [''b'', ''a''] exampleResults) [''a''] = 2"
    and "recordsAt (DetailedErrors [''b'', ''a''] exampleResults) ''a''
       = [ValueResult False ''no'', ValueResult False ''bad'']"
    and "\<not> ValidR exampleResults"
    by (simp_all add: exampleResults_at)
  with exampleResults_reachable exampleResults_order exampleResults_errors_order n
  show ?thesis by blast
qed

theorem Errors_one_per_failing_witness:
  "iterationOrder exampleResults [''b'', ''a'']
   \<and> Errors [''b'', ''a''] exampleResults
       = [ValueResultError ''a'' (ValueResult False ''no''),
          ValueResultError ''a'' (ValueResult False ''bad'')]
   \<and> map Error (Errors [''b'', ''a''] exampleResults)
       = [''@path '' @ [CHR 0x27] @ ''a'' @ [CHR 0x27] @ '': no'',
          ''@path '' @ [CHR 0x27] @ ''a'' @ [CHR 0x27] @ '': bad'']"
proof -
  have a: "allResults exampleResults [''b'', ''a'']
       = [(''b'', ValidVR), (''a'', ValueResult False ''no''), (''a'', ValueResult False ''bad'')]"
    by (simp add: allResults_def exampleResults_at)
  from Errors_one_per_failing [OF exampleResults_order]
  have e: "Errors [''b'', ''a''] exampleResults
       = [ValueResultError ''a'' (ValueResult False ''no''),
          ValueResultError ''a'' (ValueResult False ''bad'')]"
    by (simp add: a ValidVR_def)
  from Errors_one_per_failing [OF exampleResults_order]
  have "\<forall>e \<in> set (Errors [''b'', ''a''] exampleResults).
       Error e = ''@path '' @ [CHR 0x27] @ vre_path e @ [CHR 0x27] @ '': ''
                   @ Message (vre_valueResult e)"
    by blast
  then have "map Error (Errors [''b'', ''a''] exampleResults)
       = [''@path '' @ [CHR 0x27] @ ''a'' @ [CHR 0x27] @ '': no'',
          ''@path '' @ [CHR 0x27] @ ''a'' @ [CHR 0x27] @ '': bad'']"
    by (simp add: e)
  with exampleResults_order e show ?thesis by blast
qed

section \<open>Properties of the predicates\<close>

lemma check_Is: "check (Is nm chk) v True = chk v"
  by (simp add: check_def Is_def)

lemma check_IsAny: "check (IsAny F defs) x True = anyOf F (map name defs) defs x"
  by (simp add: IsAny_def Let_def check_Is)

lemma anyOf_none:
  "\<forall>d \<in> set defs. \<not> Valid (check d x True) \<Longrightarrow>
     anyOf F names defs x =
       ValueResult False
         (''Value was none of '' @ verb_sharp_v_strings F names
            @ '', actual value was '' @ verb_sharp_v F x)"
  by (induction defs) (simp_all add: Let_def)

lemma anyOf_first:
  "\<forall>d \<in> set pre. \<not> Valid (check d x True) \<Longrightarrow> Valid (check d x True) \<Longrightarrow>
     anyOf F names (pre @ d # post) x = check d x True"
  by (induction pre) (simp_all add: Let_def)

lemma anyOf_Valid: "Valid (anyOf F names defs x) \<longleftrightarrow> (\<exists>d \<in> set defs. Valid (check d x True))"
  by (induction defs) (auto simp: Let_def)

lemma anyOfCalls_none:
  "\<forall>d \<in> set defs. \<not> Valid (check d x True) \<Longrightarrow> anyOfCalls defs x = defs"
  by (induction defs) (simp_all add: Let_def)

lemma anyOfCalls_first:
  "\<forall>d \<in> set pre. \<not> Valid (check d x True) \<Longrightarrow> Valid (check d x True) \<Longrightarrow>
     anyOfCalls (pre @ d # post) x = pre @ [d]"
  by (induction pre) (simp_all add: Let_def)

text \<open>
  C2. \<open>IsAny(p1, ..., pn)\<close> applied to \<open>x\<close> is valid exactly when some candidate is
  valid on \<open>x\<close>. The record returned is that of the first valid candidate, whatever
  candidates follow it, and \<open>check\<close> is called on the candidates up to that one and on
  no later one. When no candidate is valid the record is a failure whose message is
  built from the list of the candidates' names and the actual value only.
\<close>

theorem IsAny_first_valid:
  "(Valid (check (IsAny F defs) x True) \<longleftrightarrow> (\<exists>d \<in> set defs. Valid (check d x True)))
   \<and> (\<forall>pre d post. defs = pre @ d # post \<longrightarrow> (\<forall>c \<in> set pre. \<not> Valid (check c x True))
         \<longrightarrow> Valid (check d x True)
         \<longrightarrow> check (IsAny F defs) x True = check d x True \<and> anyOfCalls defs x = pre @ [d])
   \<and> ((\<forall>d \<in> set defs. \<not> Valid (check d x True)) \<longrightarrow>
         check (IsAny F defs) x True =
           ValueResult False
             (''Value was none of '' @ verb_sharp_v_strings F (map name defs)
                @ '', actual value was '' @ verb_sharp_v F x)
         \<and> anyOfCalls defs x = defs)"
  unfolding check_IsAny
  by (intro conjI allI impI)
    (simp_all add: anyOf_Valid anyOf_first anyOfCalls_first anyOf_none anyOfCalls_none)

lemma check_KeyMissing_present: "\<not> Valid (check KeyMissing v True)"
  by (simp add: check_def KeyMissing_def)

lemma check_IsStringContaining_examples:
  "Valid (check (IsStringContaining F ''a'') (VString ''cat'') True)"
  "\<not> Valid (check (IsStringContaining F ''a'') (VInt 2) True)"
  by (simp_all add: IsStringContaining_def check_Is ValidVR_def)

theorem IsAny_first_valid_witness:
  "\<forall>F. check (IsAny F [KeyMissing, IsStringContaining F ''a'', KeyPresent])
            (VString ''cat'') True
        = check (IsStringContaining F ''a'') (VString ''cat'') True
     \<and> anyOfCalls [KeyMissing, IsStringContaining F ''a'', KeyPresent] (VString ''cat'')
        = [KeyMissing, IsStringContaining F ''a'']
     \<and> Valid (check (IsAny F [KeyMissing, IsStringContaining F ''a'', KeyPresent])
            (VString ''cat'') True)
     \<and> check (IsAny F [KeyMissing, IsStringContaining F ''a'']) (VInt 2) True
        = ValueResult False
            (''Value was none of ''
               @ verb_sharp_v_strings F [''check key not present'', ''is string containing'']
               @ '', actual value was '' @ verb_sharp_v F (VInt 2))"
proof
  fix F
  let ?defs = "[KeyMissing, IsStringContaining F ''a'', KeyPresent]"
  let ?two = "[KeyMissing, IsStringContaining F ''a'']"
  have pre: "\<forall>c \<in> set [KeyMissing]. \<not> Valid (check c (VString ''cat'') True)"
    by (simp add: check_KeyMissing_present)
  have second: "Valid (check (IsStringContaining F ''a'') (VString ''cat'') True)"
    by (rule check_IsStringContaining_examples)
  have split: "?defs = [KeyMissing] @ IsStringContaining F ''a'' # [KeyPresent]"
    by simp
  from IsAny_first_valid [of F ?defs "VString ''cat''"]
  have "\<forall>pre d post. ?defs = pre @ d # post
      \<longrightarrow> (\<forall>c \<in> set pre. \<not> Valid (check c (VString ''cat'') True))
      \<longrightarrow> Valid (check d (VString ''cat'') True)
      \<longrightarrow> check (IsAny F ?defs) (VString ''cat'') True = check d (VString ''cat'') True
          \<and> anyOfCalls ?defs (VString ''cat'') = pre @ [d]"
    by (rule conjunct1 [OF conjunct2])
  from this [THEN spec, THEN spec, THEN spec, THEN mp, OF split, THEN mp, OF pre,
      THEN mp, OF second]
  have a: "check (IsAny F ?defs) (VString ''cat'') True
        = check (IsStringContaining F ''a'') (VString ''cat'') True
      \<and> anyOfCalls ?defs (VString ''cat'') = [KeyMissing] @ [IsStringContaining F ''a'']" .
  have none: "\<forall>d \<in> set ?two. \<not> Valid (check d (VInt 2) True)"
    by (simp add: check_KeyMissing_present check_IsStringContaining_examples)
  have names: "map name ?two = [''check key not present'', ''is string containing'']"
    by (simp add: KeyMissing_def IsStringContaining_def Is_def)
  from IsAny_first_valid [of F ?two "VInt 2"] none
  have b: "check (IsAny F ?two) (VInt 2) True
        = ValueResult False
            (''Value was none of ''
               @ verb_sharp_v_strings F [''check key not present'', ''is string containing'']
               @ '', actual value was '' @ verb_sharp_v F (VInt 2))"
    unfolding names by blast
  from a b second
  show "check (IsAny F ?defs) (VString ''cat'') True
        = check (IsStringContaining F ''a'') (VString ''cat'') True
     \<and> anyOfCalls ?defs (VString ''cat'') = [KeyMissing, IsStringContaining F ''a'']
     \<and> Valid (check (IsAny F ?defs) (VString ''cat'') True)
     \<and> check (IsAny F ?two) (VInt 2) True
        = ValueResult False
            (''Value was none of ''
               @ verb_sharp_v_strings F [''check key not present'', ''is string containing'']
               @ '', actual value was '' @ verb_sharp_v F (VInt 2))"
    by simp
qed

text \<open>
  C10. \<open>IsAny()\<close> with no candidate is valid on no value: it returns the failure record
  built from the empty list of names.
\<close>

theorem IsAny_empty:
  "\<not> Valid (check (IsAny F []) x True)
   \<and> check (IsAny F []) x True =
       ValueResult False
         (''Value was none of '' @ verb_sharp_v_strings F []
            @ '', actual value was '' @ verb_sharp_v F x)"
  by (simp add: check_IsAny)

lemma Contains_iff: "Contains s substr \<longleftrightarrow> (\<exists>pre post. s = pre @ substr @ post)"
proof (induction s)
  case Nil
  show ?case by auto
next
  case (Cons c s)
  show ?case
  proof
    assume "Contains (c # s) substr"
    then consider "prefix substr (c # s)" | "Contains s substr" by auto
    then show "\<exists>pre post. c # s = pre @ substr @ post"
    proof cases
      case 1
      then obtain post where "c # s = substr @ post" by (auto simp: prefix_def)
      then have "c # s = [] @ substr @ post" by simp
      then show ?thesis by blast
    next
      case 2
      with Cons obtain pre post where "s = pre @ substr @ post" by blast
      then have "c # s = (c # pre) @ substr @ post" by simp
      then show ?thesis by blast
    qed
  next
    assume "\<exists>pre post. c # s = pre @ substr @ post"
    then obtain pre post where eq: "c # s = pre @ substr @ post" by blast
    show "Contains (c # s) substr"
    proof (cases pre)
      case Nil
      with eq have "prefix substr (c # s)" by (simp add: prefix_def)
      then show ?thesis by simp
    next
      case (Cons a pre')
      with eq have "s = pre' @ substr @ post" by simp
      with Cons.IH have "Contains s substr" by blast
      then show ?thesis by simp
    qed
  qed
qed

text \<open>
  C5. \<open>IsStringContaining(needle)\<close> returns an invalid record with the "Unable to
  convert" message on a value that is not a string, an invalid record with the "did not
  contain substring" message on a string in which \<open>needle\<close> does not occur, and the
  valid record on a string in which it occurs.
\<close>

theorem IsStringContaining_check:
  "((\<forall>s. v \<noteq> VString s) \<longrightarrow>
      check (IsStringContaining F needle) v True =
        ValueResult False
          (''Unable to convert '' @ [CHR 0x27] @ verb_v F v @ [CHR 0x27] @ '' to string''))
   \<and> (\<not> Contains s needle \<longrightarrow>
      check (IsStringContaining F needle) (VString s) True =
        ValueResult False
          (''String '' @ [CHR 0x27] @ s @ [CHR 0x27] @ '' did not contain substring ''
             @ [CHR 0x27] @ needle @ [CHR 0x27]))
   \<and> (Contains s needle \<longrightarrow> check (IsStringContaining F needle) (VString s) True = ValidVR)
   \<and> (Contains s needle \<longleftrightarrow> (\<exists>pre post. s = pre @ needle @ post))"
  by (cases v) (simp_all add: IsStringContaining_def check_Is Contains_iff)

theorem IsStringContaining_check_witness:
  "\<forall>F. check (IsStringContaining F ''foo'') (VInt 42) True =
        ValueResult False
          (''Unable to convert '' @ [CHR 0x27] @ verb_v F (VInt 42) @ [CHR 0x27] @ '' to string'')
     \<and> check (IsStringContaining F ''foo'') (VString ''foobar'') True = ValidVR
     \<and> check (IsStringContaining F ''foo'') (VString ''bar'') True =
        ValueResult False
          (''String '' @ [CHR 0x27] @ ''bar'' @ [CHR 0x27] @ '' did not contain substring ''
             @ [CHR 0x27] @ ''foo'' @ [CHR 0x27])"
proof
  fix F
  have 1: "\<forall>s. VInt 42 \<noteq> VString s" by simp
  have 2: "Contains ''foobar'' ''foo''" by simp
  have 3: "\<not> Contains ''bar'' ''foo''" by simp
  from IsStringContaining_check [of "VInt 42" F "''foo''" "''foobar''"] 1 2
    IsStringContaining_check [of "VInt 42" F "''foo''" "''bar''"] 3
  show "check (IsStringContaining F ''foo'') (VInt 42) True =
        ValueResult False
          (''Unable to convert '' @ [CHR 0x27] @ verb_v F (VInt 42) @ [CHR 0x27] @ '' to string'')
     \<and> check (IsStringContaining F ''foo'') (VString ''foobar'') True = ValidVR
     \<and> check (IsStringContaining F ''foo'') (VString ''bar'') True =
        ValueResult False
          (''String '' @ [CHR 0x27] @ ''bar'' @ [CHR 0x27] @ '' did not contain substring ''
             @ [CHR 0x27] @ ''foo'' @ [CHR 0x27])"
    by blast
qed

lemma check_IsEqual_Valid: "Valid (check (IsEqual F to) v True) \<longleftrightarrow> DeepEqual v to"
  by (simp add: IsEqual_def check_Is ObjectsAreEqual_def ValidVR_def)

lemma check_IsEqual_invalid:
  "\<not> DeepEqual v to \<Longrightarrow>
     check (IsEqual F to) v True =
       ValueResult False
         (''objects not equal: actual('' @ verb_v F v @ '') != expected(''
            @ verb_v F to @ '')'')"
  by (simp add: IsEqual_def check_Is ObjectsAreEqual_def)

lemma float_eq_refl: "a \<noteq> FNaN \<Longrightarrow> float_eq a a"
  by (cases a) simp_all

lemma float_eq_oneZero:
  "float_eq a b \<Longrightarrow> (if a = FNegZero then FNum 0 else a) = (if b = FNegZero then FNum 0 else b)"
  by (cases a; cases b) simp_all

lemma DeepEqual_refl: "noNaN v \<Longrightarrow> DeepEqual v v"
proof (induction v)
  case (VSlice xs)
  then have "\<forall>x \<in> set xs. DeepEqual x x"
    by (simp add: list_all_iff)
  then have "list_all2 DeepEqual xs xs"
    by (simp add: list_all2_same)
  then show ?case
    by (simp add: list_all2_map1)
next
  case (VMap m)
  have "DeepEqual z z" if "z \<in> fmran' m" for z
  proof -
    from that obtain k where "fmlookup m k = Some z"
      by (auto simp: fmlookup_ran'_iff)
    with VMap.prems have "noNaN z"
      by (auto simp: fmpred_iff)
    with VMap.IH that show ?thesis by blast
  qed
  then have "fmrel DeepEqual m m"
    by (rule fmap.rel_refl_strong)
  then show ?case
    by (simp add: fmap.rel_map)
qed (simp_all add: float_eq_refl)

lemma DeepEqual_oneZero: "DeepEqual v w \<Longrightarrow> oneZero v = oneZero w"
proof (induction v arbitrary: w)
  case (VFloat64 a)
  then show ?case
    by (cases w) (simp_all add: float_eq_oneZero)
next
  case (VSlice xs)
  from VSlice.prems obtain ys where w: "w = VSlice ys" and rel: "list_all2 DeepEqual xs ys"
    by (cases w) (simp_all add: list_all2_map1)
  have "list_all2 (\<lambda>a b. oneZero a = oneZero b) xs ys"
    using rel VSlice.IH by (rule list.rel_mono_strong) blast
  then have "list_all2 (=) (map oneZero xs) (map oneZero ys)"
    by (simp add: list.rel_map)
  then have "map oneZero xs = map oneZero ys"
    by (simp only: list.rel_eq)
  then show ?case by (simp add: w)
next
  case (VMap m)
  from VMap.prems obtain n where w: "w = VMap n" and rel: "fmrel DeepEqual m n"
    by (cases w) (simp_all add: fmap.rel_map)
  have "fmrel (\<lambda>a b. oneZero a = oneZero b) m n"
    using rel VMap.IH by (rule fmap.rel_mono_strong) blast
  then have "fmrel (=) (fmmap oneZero m) (fmmap oneZero n)"
    by (simp add: fmap.rel_map)
  then have "fmmap oneZero m = fmmap oneZero n"
    by (simp only: fmap.rel_eq)
  then show ?case by (simp add: w)
qed auto

lemma IsEqual_NaN: "\<not> Valid (check (IsEqual F (VFloat64 FNaN)) (VFloat64 FNaN) True)"
  by (simp add: check_IsEqual_Valid)

lemma IsEqual_zeros:
  "VFloat64 FNegZero \<noteq> VFloat64 (FNum 0)
   \<and> Valid (check (IsEqual F (VFloat64 (FNum 0))) (VFloat64 FNegZero) True)"
  by (simp add: check_IsEqual_Valid)

text \<open>
  C3, as the claim states it, fails twice. \<open>IsEqual(v)\<close> applied to \<open>v\<close> itself is not
  valid for every \<open>v\<close>: a NaN is rejected against itself. And a value that differs from
  \<open>v\<close> in representation is not always rejected: the negative zero is accepted against
  the positive one.
\<close>

theorem IsEqual_check_counterexample:
  "\<not> (\<forall>F v. Valid (check (IsEqual F v) v True))
   \<and> \<not> (\<forall>F v w. w \<noteq> v \<longrightarrow> \<not> Valid (check (IsEqual F v) w True))"
proof
  show "\<not> (\<forall>F v. Valid (check (IsEqual F v) v True))"
    using IsEqual_NaN by blast
  show "\<not> (\<forall>F v w. w \<noteq> v \<longrightarrow> \<not> Valid (check (IsEqual F v) w True))"
    using IsEqual_zeros by blast
qed

text \<open>
  C3, amended. \<open>IsEqual(v)\<close> applied to \<open>v\<close> itself is valid when \<open>v\<close> holds no NaN;
  applied to a value that differs from \<open>v\<close> in type or representation, the sign of a
  float zero apart, it returns an invalid record; and every invalid record it returns
  has the message holding the \<open>%v\<close> renderings of the actual and of the expected value.
\<close>

theorem IsEqual_check:
  "(noNaN v \<longrightarrow> Valid (check (IsEqual F v) v True))
   \<and> (oneZero w \<noteq> oneZero v \<longrightarrow> \<not> Valid (check (IsEqual F v) w True))
   \<and> (\<not> Valid (check (IsEqual F v) w True) \<longrightarrow>
        check (IsEqual F v) w True =
          ValueResult False
            (''objects not equal: actual('' @ verb_v F w @ '') != expected(''
               @ verb_v F v @ '')''))"
proof (intro conjI impI)
  assume "noNaN v"
  then show "Valid (check (IsEqual F v) v True)"
    by (simp add: check_IsEqual_Valid DeepEqual_refl)
next
  assume "oneZero w \<noteq> oneZero v"
  then have "\<not> DeepEqual w v"
    using DeepEqual_oneZero by blast
  then show "\<not> Valid (check (IsEqual F v) w True)"
    by (simp add: check_IsEqual_Valid)
next
  assume "\<not> Valid (check (IsEqual F v) w True)"
  then have "\<not> DeepEqual w v"
    by (simp add: check_IsEqual_Valid)
  then show "check (IsEqual F v) w True =
          ValueResult False
            (''objects not equal: actual('' @ verb_v F w @ '') != expected(''
               @ verb_v F v @ '')'')"
    by (rule check_IsEqual_invalid)
qed

theorem IsEqual_check_witness:
  "\<forall>F. noNaN (VSlice [VInt 1, VFloat64 FNegZero])
     \<and> Valid (check (IsEqual F (VSlice [VInt 1, VFloat64 FNegZero]))
          (VSlice [VInt 1, VFloat64 FNegZero]) True)
     \<and> oneZero (VInt64 1) \<noteq> oneZero (VInt 1)
     \<and> \<not> Valid (check (IsEqual F (VInt 1)) (VInt64 1) True)
     \<and> check (IsEqual F (VInt 1)) (VInt64 1) True =
          ValueResult False
            (''objects not equal: actual('' @ verb_v F (VInt64 1) @ '') != expected(''
               @ verb_v F (VInt 1) @ '')'')"
proof
  fix F
  have n: "noNaN (VSlice [VInt 1, VFloat64 FNegZero])" by simp
  have d: "oneZero (VInt64 1) \<noteq> oneZero (VInt 1)" by simp
  from IsEqual_check [of "VSlice [VInt 1, VFloat64 FNegZero]" F] n
  have a: "Valid (check (IsEqual F (VSlice [VInt 1, VFloat64 FNegZero]))
          (VSlice [VInt 1, VFloat64 FNegZero]) True)"
    by blast
  from IsEqual_check [of "VInt 1" F "VInt64 1"] d
  have b: "\<not> Valid (check (IsEqual F (VInt 1)) (VInt64 1) True)"
    and c: "check (IsEqual F (VInt 1)) (VInt64 1) True =
          ValueResult False
            (''objects not equal: actual('' @ verb_v F (VInt64 1) @ '') != expected(''
               @ verb_v F (VInt 1) @ '')'')"
    by blast+
  from n a d b c
  show "noNaN (VSlice [VInt 1, VFloat64 FNegZero])
     \<and> Valid (check (IsEqual F (VSlice [VInt 1, VFloat64 FNegZero]))
          (VSlice [VInt 1, VFloat64 FNegZero]) True)
     \<and> oneZero (VInt64 1) \<noteq> oneZero (VInt 1)
     \<and> \<not> Valid (check (IsEqual F (VInt 1)) (VInt64 1) True)
     \<and> check (IsEqual F (VInt 1)) (VInt64 1) True =
          ValueResult False
            (''objects not equal: actual('' @ verb_v F (VInt64 1) @ '') != expected(''
               @ verb_v F (VInt 1) @ '')'')"
    by blast
qed

lemma check_IsEqualToValue_Valid:
  "Valid (check (IsEqualToValue F to) v True) \<longleftrightarrow> ObjectsAreEqualValues v to"
  by (simp add: IsEqualToValue_def check_Is ValidVR_def)

text \<open>
  C4. Whenever \<open>IsEqual(e)\<close> accepts a value, \<open>IsEqualToValue(e)\<close> accepts it too; and
  the integer 1 against the float 1 is accepted by \<open>IsEqualToValue\<close> and rejected by
  \<open>IsEqual\<close>.
\<close>

theorem IsEqualToValue_looser:
  "(Valid (check (IsEqual F e) v True) \<longrightarrow> Valid (check (IsEqualToValue F e) v True))
   \<and> Valid (check (IsEqualToValue F (VInt 1)) (VFloat64 (FNum 1)) True)
   \<and> \<not> Valid (check (IsEqual F (VInt 1)) (VFloat64 (FNum 1)) True)"
  by (simp add: check_IsEqual_Valid check_IsEqualToValue_Valid ObjectsAreEqualValues_def
      ObjectsAreEqual_def)

theorem IsEqualToValue_looser_witness:
  "\<forall>F. Valid (check (IsEqual F (VString ''x'')) (VString ''x'') True)
     \<and> Valid (check (IsEqualToValue F (VString ''x'')) (VString ''x'') True)"
proof
  fix F
  have h: "Valid (check (IsEqual F (VString ''x'')) (VString ''x'') True)"
    by (simp add: check_IsEqual_Valid)
  from IsEqualToValue_looser [of F "VString ''x''" "VString ''x''"] h
  show "Valid (check (IsEqual F (VString ''x'')) (VString ''x'') True)
     \<and> Valid (check (IsEqualToValue F (VString ''x'')) (VString ''x'') True)"
    by blast
qed

text \<open>
  C6. At a key of the enclosing map, \<open>KeyMissing\<close> matches exactly when the key is
  absent; it has no checking function and its record does not depend on any value.
  \<open>KeyPresent\<close> matches exactly when the key is present, also when the value stored
  under it is nil.
\<close>

theorem KeyMissing_KeyPresent:
  "(Valid (checkKey KeyMissing m k) \<longleftrightarrow> k \<notin> dom m)
   \<and> checker KeyMissing = None
   \<and> (\<forall>v v' keyExists. check KeyMissing v keyExists = check KeyMissing v' keyExists)
   \<and> (Valid (checkKey KeyPresent m k) \<longleftrightarrow> k \<in> dom m)
   \<and> (m k = Some VNil \<longrightarrow> Valid (checkKey KeyPresent m k))"
  by (cases "m k")
    (simp_all add: checkKey_def check_def KeyMissing_def KeyPresent_def ValidVR_def dom_def)

theorem KeyMissing_KeyPresent_witness:
  "[''a'' \<mapsto> VNil] ''a'' = Some VNil
   \<and> Valid (checkKey KeyPresent [''a'' \<mapsto> VNil] ''a'')
   \<and> \<not> Valid (checkKey KeyMissing [''a'' \<mapsto> VNil] ''a'')
   \<and> \<not> Valid (checkKey KeyPresent [''a'' \<mapsto> VNil] ''b'')
   \<and> Valid (checkKey KeyMissing [''a'' \<mapsto> VNil] ''b'')"
proof -
  have h: "[''a'' \<mapsto> VNil] ''a'' = Some VNil" by simp
  from KeyMissing_KeyPresent [of "[''a'' \<mapsto> VNil]" "''a''"]
    KeyMissing_KeyPresent [of "[''a'' \<mapsto> VNil]" "''b''"] h
  show ?thesis by simp
qed

end
